theory Spec2Isabelle
  imports Main
begin

section \<open>Data model of TrafficLight.cpp\<close>

text \<open>
  The two phases of the light. The controller prints the phase as an integer, which
  plays no role in what follows.
\<close>

datatype TrafficLightPhase = red | green

type_synonym thread = nat

text \<open>
  \<open>MessageQueue<T>\<close> has three members: the container \<open>_messages\<close> (its back is the
  end of the list), the mutex \<open>_mutex\<close> (here: the thread that holds it, if any) and
  the condition variable \<open>_condition\<close> (here: the threads blocked in its \<open>wait\<close>).
\<close>

record 'a MessageQueue =
  messages :: "'a list"
  mutex :: "thread option"
  waiting :: "thread list"

text \<open>
  \<open>TrafficLight\<close> owns the current phase and the queue. The queue is reached through
  a shared pointer that only this controller holds, so it is a field here. The members
  inherited from the base class (\<open>_id\<close>, \<open>threads\<close>) are declared outside this file
  and are left out.
\<close>

record TrafficLight =
  currentPhase :: TrafficLightPhase
  msgQueue :: "TrafficLightPhase MessageQueue"

section \<open>Mutex and condition variable\<close>

text \<open>
  Locking a mutex that another thread holds blocks the caller: the result is \<open>None\<close>
  and nothing has changed. \<open>std::lock_guard\<close> and \<open>std::unique_lock\<close> both lock in
  their constructor and unlock when the scope ends.
\<close>

definition lock :: "thread \<Rightarrow> 'a MessageQueue \<Rightarrow> 'a MessageQueue option" where
  "lock t q = (case mutex q of None \<Rightarrow> Some (q\<lparr>mutex := Some t\<rparr>) | Some _ \<Rightarrow> None)"

definition unlock :: "'a MessageQueue \<Rightarrow> 'a MessageQueue" where
  "unlock q = q\<lparr>mutex := None\<rparr>"

text \<open>
  \<open>_condition.wait(ulock, pred)\<close> with a false predicate releases the mutex and parks
  the calling thread. A parked thread that runs again (notified or woken spuriously)
  takes the mutex and tests the predicate again, which is \<open>receive\<close> from its first
  line on; it is no longer parked then.
\<close>

definition park :: "thread \<Rightarrow> 'a MessageQueue \<Rightarrow> 'a MessageQueue" where
  "park t q = q\<lparr>mutex := None, waiting := waiting q @ [t]\<rparr>"

definition unpark :: "thread \<Rightarrow> 'a MessageQueue \<Rightarrow> 'a MessageQueue" where
  "unpark t q = q\<lparr>waiting := removeAll t (waiting q)\<rparr>"

text \<open>
  \<open>notify_one\<close> unblocks one of the parked threads if there is any. Which one is left
  open by the language standard; the model takes the one parked longest, and no theorem
  below depends on that choice.
\<close>

definition notify_one :: "'a MessageQueue \<Rightarrow> 'a MessageQueue" where
  "notify_one q = (case waiting q of [] \<Rightarrow> q | w # ws \<Rightarrow> q\<lparr>waiting := ws\<rparr>)"

section \<open>MessageQueue\<close>

text \<open>
  \<open>receive\<close> run by thread \<open>t\<close>, up to the point where it returns or blocks. The first
  component is the returned message, \<open>None\<close> when the thread is blocked (on the mutex,
  with the queue as it was, or in \<open>wait\<close>, parked).
\<close>

definition receive :: "thread \<Rightarrow> 'a MessageQueue \<Rightarrow> 'a option \<times> 'a MessageQueue" where
  "receive t q =
     (case lock t (unpark t q) of
        None \<Rightarrow> (None, q)
      | Some ulock \<Rightarrow>
          if messages ulock = [] then (None, park t ulock)
          else
            let msg = last (messages ulock);
                popped = ulock\<lparr>messages := butlast (messages ulock)\<rparr>
            in (Some msg, unlock popped))"

text \<open>\<open>send\<close> run by thread \<open>t\<close>; \<open>None\<close> when the thread is blocked on the mutex.\<close>

definition send :: "thread \<Rightarrow> 'a \<Rightarrow> 'a MessageQueue \<Rightarrow> 'a MessageQueue option" where
  "send t msg q =
     (case lock t q of
        None \<Rightarrow> None
      | Some ulock \<Rightarrow>
          let pushed = ulock\<lparr>messages := messages ulock @ [msg]\<rparr>
          in Some (unlock (notify_one pushed)))"

text \<open>\<open>clear\<close> has one statement, \<open>_messages.clear()\<close>, and touches nothing else.\<close>

definition clear :: "'a MessageQueue \<Rightarrow> 'a MessageQueue" where
  "clear q = q\<lparr>messages := []\<rparr>"

text \<open>
  Operations that threads perform on one queue, one after the other. An operation that
  blocks on the mutex leaves the queue as it was.
\<close>

datatype 'a queue_op = Send thread 'a | Receive thread | Clear

fun apply_op :: "'a queue_op \<Rightarrow> 'a MessageQueue \<Rightarrow> 'a MessageQueue" where
  "apply_op (Send t msg) q = (case send t msg q of None \<Rightarrow> q | Some q' \<Rightarrow> q')"
| "apply_op (Receive t) q = snd (receive t q)"
| "apply_op Clear q = clear q"

fun run_ops :: "'a queue_op list \<Rightarrow> 'a MessageQueue \<Rightarrow> 'a MessageQueue" where
  "run_ops [] q = q"
| "run_ops (x # xs) q = run_ops xs (apply_op x q)"

text \<open>
  The number of sends of a history that no receive has taken and no clear has
  discarded, counted on the history alone, starting from \<open>n\<close> pending messages.
\<close>

fun unmatched_sends :: "'a queue_op list \<Rightarrow> nat \<Rightarrow> nat" where
  "unmatched_sends [] n = n"
| "unmatched_sends (Send t msg # xs) n = unmatched_sends xs (Suc n)"
| "unmatched_sends (Receive t # xs) n = unmatched_sends xs (n - 1)"
| "unmatched_sends (Clear # xs) n = unmatched_sends xs 0"

fun sent_values :: "'a queue_op list \<Rightarrow> 'a list" where
  "sent_values [] = []"
| "sent_values (Send t msg # xs) = msg # sent_values xs"
| "sent_values (Receive t # xs) = sent_values xs"
| "sent_values (Clear # xs) = sent_values xs"

text \<open>How many parked threads an operation has unblocked.\<close>

definition woken :: "'a MessageQueue \<Rightarrow> 'a MessageQueue \<Rightarrow> nat" where
  "woken before after = length (waiting before) - length (waiting after)"

definition empty_queue :: "'a MessageQueue" where
  "empty_queue = \<lparr>messages = [], mutex = None, waiting = []\<rparr>"

section \<open>TrafficLight\<close>

text \<open>The constructor: phase red and a fresh queue.\<close>

definition TrafficLight_new :: TrafficLight where
  "TrafficLight_new = \<lparr>currentPhase = red, msgQueue = empty_queue\<rparr>"

text \<open>\<open>getCurrentPhase\<close> returns a value and the state it leaves behind.\<close>

definition getCurrentPhase :: "TrafficLight \<Rightarrow> TrafficLightPhase \<times> TrafficLight" where
  "getCurrentPhase this = (currentPhase this, this)"

text \<open>
  \<open>waitForGreen\<close> run by thread \<open>t\<close> along a schedule. \<open>Turn\<close> lets the thread run its
  next call of \<open>receive\<close> (or run that call again after it was parked); \<open>Other\<close> is an
  operation of another thread on the same queue. The result says whether the loop was
  left, which notifications \<open>receive\<close> returned to it, in order, and the final state;
  the loop has no exit other than the \<open>break\<close>, so at the end of a schedule without a
  green notification the thread is still inside. The sleep of one millisecond at the
  head of each iteration only delays the thread and is left out.
\<close>

datatype event = Turn | Other "TrafficLightPhase queue_op"

fun waitForGreen ::
  "thread \<Rightarrow> event list \<Rightarrow> TrafficLight \<Rightarrow> bool \<times> TrafficLightPhase list \<times> TrafficLight" where
  "waitForGreen t [] this = (False, [], this)"
| "waitForGreen t (Other x # es) this =
     waitForGreen t es (this\<lparr>msgQueue := apply_op x (msgQueue this)\<rparr>)"
| "waitForGreen t (Turn # es) this =
     (case receive t (msgQueue this) of
        (None, q) \<Rightarrow> waitForGreen t es (this\<lparr>msgQueue := q\<rparr>)
      | (Some currPhase, q) \<Rightarrow>
          if currPhase = green then (True, [currPhase], this\<lparr>msgQueue := q\<rparr>)
          else
            (case waitForGreen t es (this\<lparr>msgQueue := q\<rparr>) of
               (left, rest, this') \<Rightarrow> (left, currPhase # rest, this')))"

text \<open>
  A schedule that delivers the notifications \<open>ns\<close> one by one: another thread sends
  one, then the waiting thread gets its turn.
\<close>

fun deliver :: "thread \<Rightarrow> TrafficLightPhase list \<Rightarrow> event list" where
  "deliver u [] = []"
| "deliver u (n # ns) = Other (Send u n) # Turn # deliver u ns"

section \<open>cycleThroughPhases\<close>

text \<open>
  \<open>std::uniform_int_distribution<int> secondsList(5, 8)\<close>: the distribution object
  keeps the two bounds it was built with. Which value a call \<open>secondsList(engine)\<close>
  returns is decided by the library and the engine, not by this program: the value
  drawn is an input here, and what the library promises of it is that it lies within
  the bounds. With which probability a value is drawn is not expressed.
\<close>

record uniform_int_distribution =
  dist_a :: int
  dist_b :: int

definition secondsList :: uniform_int_distribution where
  "secondsList = \<lparr>dist_a = 5, dist_b = 8\<rparr>"

definition within_bounds :: "uniform_int_distribution \<Rightarrow> int \<Rightarrow> bool" where
  "within_bounds dist d \<longleftrightarrow> dist_a dist \<le> d \<and> d \<le> dist_b dist"

text \<open>
  \<open>duration_cast<seconds>\<close> of a difference of clock readings: integer division that
  truncates towards zero. Clock readings are in nanoseconds.
\<close>

definition duration_cast_seconds :: "int \<Rightarrow> int" where
  "duration_cast_seconds d =
     (if d < 0 then - ((- d) div 1000000000) else d div 1000000000)"

text \<open>The steps of the loop body, recorded in the order in which the thread takes them.\<close>

datatype effect =
    Toggled TrafficLightPhase
  | Printed TrafficLightPhase
  | Cleared
  | Sent TrafficLightPhase
  | StopWatchReset int
  | DurationChosen int

record CycleState =
  light :: TrafficLight
  cycleDuration :: int
  lastUpdate :: int
  effects :: "effect list"

text \<open>
  What one iteration of the loop reads from outside: two clock readings, the value that
  \<open>secondsList(engine)\<close> returns, and the thread that \<open>std::async\<close> starts.
\<close>

record Iteration =
  now_at_check :: int
  now_at_reset :: int
  drawn :: int
  async_thread :: thread

definition emit :: "effect \<Rightarrow> CycleState \<Rightarrow> CycleState" where
  "emit e s = s\<lparr>effects := effects s @ [e]\<rparr>"

definition toggle :: "TrafficLightPhase \<Rightarrow> TrafficLightPhase" where
  "toggle p = (if p = red then green else red)"

definition toggle_phase :: "CycleState \<Rightarrow> CycleState" where
  "toggle_phase s =
     emit (Toggled (toggle (currentPhase (light s))))
       (s\<lparr>light := (light s)\<lparr>currentPhase := toggle (currentPhase (light s))\<rparr>\<rparr>)"

definition cout_state :: "CycleState \<Rightarrow> CycleState" where
  "cout_state s = emit (Printed (currentPhase (light s))) s"

definition clear_queue :: "CycleState \<Rightarrow> CycleState" where
  "clear_queue s =
     emit Cleared (s\<lparr>light := (light s)\<lparr>msgQueue := clear (msgQueue (light s))\<rparr>\<rparr>)"

text \<open>\<open>std::async\<close> of \<open>send\<close> with the current phase, then \<open>sent.wait()\<close>: the cycling
  thread goes on only when the send has completed.\<close>

definition send_and_wait :: "thread \<Rightarrow> CycleState \<Rightarrow> CycleState option" where
  "send_and_wait t s =
     (case send t (currentPhase (light s)) (msgQueue (light s)) of
        None \<Rightarrow> None
      | Some q \<Rightarrow> Some (emit (Sent (currentPhase (light s))) (s\<lparr>light := (light s)\<lparr>msgQueue := q\<rparr>\<rparr>)))"

definition reset_stop_watch :: "int \<Rightarrow> CycleState \<Rightarrow> CycleState" where
  "reset_stop_watch now s = emit (StopWatchReset now) (s\<lparr>lastUpdate := now\<rparr>)"

definition choose_duration :: "int \<Rightarrow> CycleState \<Rightarrow> CycleState" where
  "choose_duration d s = emit (DurationChosen d) (s\<lparr>cycleDuration := d\<rparr>)"

text \<open>
  The statements before the loop: the first duration, which is the value \<open>d\<close> that
  \<open>secondsList(engine)\<close> returns there, and the first clock reading.
\<close>

definition cycle_start :: "int \<Rightarrow> int \<Rightarrow> TrafficLight \<Rightarrow> CycleState" where
  "cycle_start d now this =
     \<lparr>light = this, cycleDuration = d, lastUpdate = now, effects = []\<rparr>"

text \<open>
  One iteration of the loop, after its sleep of one millisecond; \<open>None\<close> when it is
  stuck in \<open>sent.wait()\<close>.
\<close>

definition cycle_step :: "Iteration \<Rightarrow> CycleState \<Rightarrow> CycleState option" where
  "cycle_step i s =
     (let timeSinceLastUpdate = duration_cast_seconds (now_at_check i - lastUpdate s) in
      if timeSinceLastUpdate \<ge> cycleDuration s then
        (case send_and_wait (async_thread i) (clear_queue (cout_state (toggle_phase s))) of
           None \<Rightarrow> None
         | Some sent \<Rightarrow>
             Some (choose_duration (drawn i) (reset_stop_watch (now_at_reset i) sent)))
      else Some s)"

text \<open>The loop never ends; this is its state after the iterations given.\<close>

fun cycleThroughPhases :: "Iteration list \<Rightarrow> CycleState \<Rightarrow> CycleState option" where
  "cycleThroughPhases [] s = Some s"
| "cycleThroughPhases (i # is) s =
     (case cycle_step i s of None \<Rightarrow> None | Some s' \<Rightarrow> cycleThroughPhases is s')"

text \<open>The test at the head of the loop body: the cycle duration has elapsed.\<close>

definition expired :: "Iteration \<Rightarrow> CycleState \<Rightarrow> bool" where
  "expired i s \<longleftrightarrow> duration_cast_seconds (now_at_check i - lastUpdate s) \<ge> cycleDuration s"

text \<open>The phase after each iteration that toggled, in order.\<close>

fun phases_shown :: "Iteration list \<Rightarrow> CycleState \<Rightarrow> TrafficLightPhase list" where
  "phases_shown [] s = []"
| "phases_shown (i # is) s =
     (case cycle_step i s of
        None \<Rightarrow> []
      | Some s' \<Rightarrow>
          (if expired i s then [currentPhase (light s')] else []) @ phases_shown is s')"

text \<open>The cycle duration in force before the loop and after each iteration.\<close>

fun durations_used :: "Iteration list \<Rightarrow> CycleState \<Rightarrow> int list" where
  "durations_used [] s = [cycleDuration s]"
| "durations_used (i # is) s =
     cycleDuration s #
     (case cycle_step i s of None \<Rightarrow> [] | Some s' \<Rightarrow> durations_used is s')"

text \<open>The sequence \<open>p\<close>, \<open>toggle p\<close>, \<open>p\<close>, ... of the given length.\<close>

fun alternating :: "TrafficLightPhase \<Rightarrow> nat \<Rightarrow> TrafficLightPhase list" where
  "alternating p 0 = []"
| "alternating p (Suc n) = p # alternating (toggle p) n"

section \<open>Basic facts\<close>

lemma lock_free: "mutex q = None \<Longrightarrow> lock t q = Some (q\<lparr>mutex := Some t\<rparr>)"
  by (simp add: lock_def)

lemma lock_held: "mutex q = Some u \<Longrightarrow> lock t q = None"
  by (simp add: lock_def)

lemma removeAll_only: "set xs \<subseteq> {t} \<Longrightarrow> removeAll t xs = []"
  by (induction xs) auto

lemma receive_held: "mutex q = Some u \<Longrightarrow> receive t q = (None, q)"
  by (simp add: receive_def lock_def unpark_def)

lemma receive_empty:
  "mutex q = None \<Longrightarrow> messages q = [] \<Longrightarrow>
   receive t q = (None, q\<lparr>waiting := removeAll t (waiting q) @ [t]\<rparr>)"
  by (simp add: receive_def lock_def unpark_def park_def)

lemma receive_nonempty:
  "mutex q = None \<Longrightarrow> messages q \<noteq> [] \<Longrightarrow>
   receive t q =
     (Some (last (messages q)),
      q\<lparr>messages := butlast (messages q), waiting := removeAll t (waiting q)\<rparr>)"
  by (simp add: receive_def lock_def unpark_def unlock_def Let_def)

lemma send_held: "mutex q = Some u \<Longrightarrow> send t msg q = None"
  by (simp add: send_def lock_def)

lemma send_free:
  "mutex q = None \<Longrightarrow>
   send t msg q = Some (q\<lparr>messages := messages q @ [msg], waiting := drop 1 (waiting q)\<rparr>)"
  by (cases "waiting q")
    (simp_all add: send_def lock_def notify_one_def unlock_def Let_def drop_Suc)

lemma mutex_apply_op: "mutex q = None \<Longrightarrow> mutex (apply_op x q) = None"
proof (cases x)
  case (Send t msg)
  assume "mutex q = None"
  with Send show ?thesis by (simp add: send_free)
next
  case (Receive t)
  assume "mutex q = None"
  with Receive show ?thesis
    by (cases "messages q = []") (simp_all add: receive_empty receive_nonempty)
next
  case Clear
  assume "mutex q = None"
  with Clear show ?thesis by (simp add: clear_def)
qed

lemma messages_apply_op:
  "mutex q = None \<Longrightarrow>
   messages (apply_op x q) =
     (case x of Send t msg \<Rightarrow> messages q @ [msg] | Receive t \<Rightarrow> butlast (messages q) | Clear \<Rightarrow> [])"
proof (cases x)
  case (Send t msg)
  assume "mutex q = None"
  with Send show ?thesis by (simp add: send_free)
next
  case (Receive t)
  assume "mutex q = None"
  with Receive show ?thesis
    by (cases "messages q = []") (simp_all add: receive_empty receive_nonempty)
next
  case Clear
  then show ?thesis by (simp add: clear_def)
qed

lemma mutex_run_ops: "mutex q = None \<Longrightarrow> mutex (run_ops h q) = None"
  by (induction h arbitrary: q) (simp_all add: mutex_apply_op)

lemma run_ops_append: "run_ops (h @ k) q = run_ops k (run_ops h q)"
  by (induction h arbitrary: q) simp_all

lemma length_run_ops:
  "mutex q = None \<Longrightarrow> length (messages (run_ops h q)) = unmatched_sends h (length (messages q))"
proof (induction h arbitrary: q)
  case Nil
  show ?case by simp
next
  case (Cons x h)
  have "length (messages (run_ops h (apply_op x q))) =
        unmatched_sends h (length (messages (apply_op x q)))"
    using Cons.prems by (intro Cons.IH mutex_apply_op)
  moreover have "unmatched_sends (x # h) (length (messages q)) =
        unmatched_sends h (length (messages (apply_op x q)))"
    unfolding messages_apply_op [OF Cons.prems] by (cases x) simp_all
  ultimately show ?case by simp
qed

lemma set_run_ops:
  "mutex q = None \<Longrightarrow> set (messages (run_ops h q)) \<subseteq> set (messages q) \<union> set (sent_values h)"
proof (induction h arbitrary: q)
  case Nil
  show ?case by simp
next
  case (Cons x h)
  have "set (messages (run_ops h (apply_op x q))) \<subseteq>
        set (messages (apply_op x q)) \<union> set (sent_values h)"
    using Cons.prems by (intro Cons.IH mutex_apply_op)
  moreover have "set (messages (apply_op x q)) \<union> set (sent_values h) \<subseteq>
        set (messages q) \<union> set (sent_values (x # h))"
    unfolding messages_apply_op [OF Cons.prems] by (cases x) (auto dest: in_set_butlastD)
  ultimately show ?case by simp blast
qed

lemma toggle_simps: "toggle red = green" "toggle green = red"
  by (simp_all add: toggle_def)

lemma toggle_neq: "toggle p \<noteq> p"
  by (cases p) (simp_all add: toggle_def)

lemma within_secondsList: "within_bounds secondsList d \<longleftrightarrow> 5 \<le> d \<and> d \<le> 8"
  by (simp add: within_bounds_def secondsList_def)

lemma toggle_toggle: "toggle (toggle p) = p"
  by (cases p) (simp_all add: toggle_def)

lemma alternating_by_parity:
  "alternating p n = map (\<lambda>k. if even k then p else toggle p) [0..<n]"
proof (induction n arbitrary: p)
  case 0
  show ?case by simp
next
  case (Suc n)
  have "map (\<lambda>k. if even k then p else toggle p) [0..<Suc n] =
        p # map (\<lambda>k. if even k then toggle p else toggle (toggle p)) [0..<n]"
    unfolding map_upt_Suc by (simp add: toggle_toggle)
  with Suc [of "toggle p"] show ?case by simp
qed

lemma distinct_adj_alternating: "distinct_adj (alternating p n)"
proof (induction n arbitrary: p)
  case 0
  show ?case by simp
next
  case (Suc n)
  from Suc [of "toggle p"] show ?case
    by (cases n) (simp_all add: toggle_neq [symmetric] distinct_adj_Cons)
qed

lemma cycle_step_idle: "\<not> expired i s \<Longrightarrow> cycle_step i s = Some s"
  by (simp add: cycle_step_def expired_def Let_def)

lemma cycle_step_expired:
  assumes "mutex (msgQueue (light s)) = None" and "expired i s"
  shows "cycle_step i s =
    Some \<lparr>light = \<lparr>currentPhase = toggle (currentPhase (light s)),
                   msgQueue = (msgQueue (light s))
                     \<lparr>messages := [toggle (currentPhase (light s))],
                      waiting := drop 1 (waiting (msgQueue (light s)))\<rparr>\<rparr>,
          cycleDuration = drawn i,
          lastUpdate = now_at_reset i,
          effects = effects s @
            [Toggled (toggle (currentPhase (light s))),
             Printed (toggle (currentPhase (light s))),
             Cleared,
             Sent (toggle (currentPhase (light s))),
             StopWatchReset (now_at_reset i),
             DurationChosen (drawn i)]\<rparr>"
proof -
  let ?p = "toggle (currentPhase (light s))"
  let ?s1 = "clear_queue (cout_state (toggle_phase s))"
  have q: "msgQueue (light ?s1) = (msgQueue (light s))\<lparr>messages := []\<rparr>"
    and p: "currentPhase (light ?s1) = ?p"
    and e: "effects ?s1 = effects s @ [Toggled ?p, Printed ?p, Cleared]"
    by (simp_all add: clear_queue_def cout_state_def toggle_phase_def emit_def clear_def)
  have "send (async_thread i) ?p (msgQueue (light ?s1)) =
      Some ((msgQueue (light s))\<lparr>messages := [?p], waiting := drop 1 (waiting (msgQueue (light s)))\<rparr>)"
    using assms(1) by (simp add: q send_free)
  then have "send_and_wait (async_thread i) ?s1 =
      Some (emit (Sent ?p) (?s1\<lparr>light := (light ?s1)\<lparr>msgQueue := (msgQueue (light s))
         \<lparr>messages := [?p], waiting := drop 1 (waiting (msgQueue (light s)))\<rparr>\<rparr>\<rparr>))"
    by (simp add: send_and_wait_def p)
  with assms(2) show ?thesis
    by (simp add: cycle_step_def expired_def Let_def choose_duration_def reset_stop_watch_def
        emit_def clear_queue_def cout_state_def toggle_phase_def clear_def)
qed

lemma cycle_step_mutex:
  "mutex (msgQueue (light s)) = None \<Longrightarrow>
   \<exists>s'. cycle_step i s = Some s' \<and> mutex (msgQueue (light s')) = None \<and>
     currentPhase (light s') =
       (if expired i s then toggle (currentPhase (light s)) else currentPhase (light s))"
  by (cases "expired i s") (simp_all add: cycle_step_idle cycle_step_expired)

lemma cycleThroughPhases_runs:
  "mutex (msgQueue (light s)) = None \<Longrightarrow>
   \<exists>s'. cycleThroughPhases is s = Some s' \<and> mutex (msgQueue (light s')) = None"
proof (induction "is" arbitrary: s)
  case Nil
  then show ?case by simp
next
  case (Cons i "is")
  from cycle_step_mutex [OF Cons.prems, of i] obtain s1
    where s1: "cycle_step i s = Some s1" "mutex (msgQueue (light s1)) = None" by blast
  from Cons.IH [OF s1(2)] s1(1) show ?case by simp
qed

lemma phases_shown_alternate:
  "mutex (msgQueue (light s)) = None \<Longrightarrow>
   phases_shown is s =
     alternating (toggle (currentPhase (light s))) (length (phases_shown is s))"
proof (induction "is" arbitrary: s)
  case Nil
  then show ?case by simp
next
  case (Cons i "is")
  from cycle_step_mutex [OF Cons.prems, of i] obtain s1
    where s1: "cycle_step i s = Some s1" "mutex (msgQueue (light s1)) = None"
      "currentPhase (light s1) =
         (if expired i s then toggle (currentPhase (light s)) else currentPhase (light s))"
    by blast
  from Cons.IH [OF s1(2)] s1(1,3) show ?case by (cases "expired i s") simp_all
qed

lemma cycle_step_duration:
  "cycle_step i s = Some s' \<Longrightarrow>
   cycleDuration s' = (if expired i s then drawn i else cycleDuration s)"
  by (auto simp: cycle_step_def expired_def Let_def choose_duration_def reset_stop_watch_def
      emit_def split: option.splits if_splits)

lemma durations_used_drawn:
  "set (durations_used is s) \<subseteq> insert (cycleDuration s) (drawn ` set is)"
proof (induction "is" arbitrary: s)
  case Nil
  show ?case by simp
next
  case (Cons i "is")
  show ?case
  proof (cases "cycle_step i s")
    case None
    then show ?thesis by simp
  next
    case (Some s1)
    from cycle_step_duration [OF Some]
    have "cycleDuration s1 = drawn i \<or> cycleDuration s1 = cycleDuration s"
      by (simp split: if_splits)
    with Cons.IH [of s1] Some show ?thesis by auto
  qed
qed

lemma durations_used_length:
  "mutex (msgQueue (light s)) = None \<Longrightarrow> length (durations_used is s) = Suc (length is)"
proof (induction "is" arbitrary: s)
  case Nil
  then show ?case by simp
next
  case (Cons i "is")
  from cycle_step_mutex [OF Cons.prems, of i] obtain s1
    where s1: "cycle_step i s = Some s1" "mutex (msgQueue (light s1)) = None" by blast
  from Cons.IH [OF s1(2)] s1(1) show ?case by simp
qed



section \<open>receive\<close>

text \<open>
  C1. In every state of the queue, \<open>receive\<close> blocks exactly when the container is
  empty (or the mutex is taken), and a blocked call leaves the container as it is. When
  it returns, it returns the element at the back, the one inserted last, and removes
  that element and no other: what \<open>send\<close> has just put in comes out first, and the
  container is then what it was before that \<open>send\<close>. Whether it returns or waits, it
  leaves the mutex free. A call that found the container empty waits parked on the
  condition variable, so that other threads can go on; a \<open>send\<close> wakes it when no
  other thread waits. Whatever the others do meanwhile, the call stays blocked as long
  as the container is empty when it looks, and as soon as a \<open>send\<close> has put a value
  in, it returns that value.
\<close>

theorem receive_takes_latest:
  "(fst (receive t q) = None \<longleftrightarrow> messages q = [] \<or> mutex q \<noteq> None) \<and>
   (fst (receive t q) = None \<longrightarrow> messages (snd (receive t q)) = messages q) \<and>
   (mutex q = None \<longrightarrow> messages q \<noteq> [] \<longrightarrow>
      fst (receive t q) = Some (last (messages q)) \<and>
      messages (snd (receive t q)) = butlast (messages q)) \<and>
   (mutex q = None \<longrightarrow>
      (\<exists>q'. send u msg q = Some q' \<and> fst (receive t q') = Some msg \<and>
            messages (snd (receive t q')) = messages q)) \<and>
   (mutex q = None \<longrightarrow> mutex (snd (receive t q)) = None) \<and>
   (mutex q = None \<longrightarrow> messages q = [] \<longrightarrow>
      t \<in> set (waiting (snd (receive t q))) \<and>
      (\<exists>q'. send u msg (snd (receive t q)) = Some q' \<and>
            (set (waiting q) \<subseteq> {t} \<longrightarrow> t \<notin> set (waiting q')) \<and>
            fst (receive t q') = Some msg \<and>
            messages (snd (receive t q')) = [] \<and>
            mutex (snd (receive t q')) = None) \<and>
      (messages (run_ops h (snd (receive t q))) = [] \<longrightarrow>
         fst (receive t (run_ops h (snd (receive t q)))) = None) \<and>
      fst (receive t (run_ops (h @ [Send u msg]) (snd (receive t q)))) = Some msg)"
proof (cases "mutex q")
  case None
  show ?thesis
  proof (cases "messages q = []")
    case True
    let ?w = "q\<lparr>waiting := removeAll t (waiting q) @ [t]\<rparr>"
    have r: "receive t q = (None, ?w)"
      using None True by (rule receive_empty)
    have w: "mutex ?w = None" "messages ?w = []"
      using None True by simp_all
    have woken: "set (waiting q) \<subseteq> {t} \<longrightarrow>
        t \<notin> set (drop 1 (removeAll t (waiting q) @ [t]))"
    proof
      assume "set (waiting q) \<subseteq> {t}"
      then have "removeAll t (waiting q) = []" by (rule removeAll_only)
      then show "t \<notin> set (drop 1 (removeAll t (waiting q) @ [t]))" by simp
    qed
    have h: "mutex (run_ops h ?w) = None"
      using w(1) by (rule mutex_run_ops)
    have blocked: "messages (run_ops h ?w) = [] \<longrightarrow> fst (receive t (run_ops h ?w)) = None"
      using h by (simp add: receive_empty)
    have sent: "fst (receive t (run_ops (h @ [Send u msg]) ?w)) = Some msg"
      using h by (simp add: run_ops_append send_free receive_nonempty)
    from None True woken blocked sent show ?thesis
      by (simp add: r send_free receive_nonempty)
  next
    case False
    with None show ?thesis by (simp add: receive_nonempty send_free)
  qed
next
  case (Some u)
  then show ?thesis by (simp add: receive_held)
qed

theorem receive_takes_latest_witness:
  "mutex \<lparr>messages = [red, green], mutex = None, waiting = []\<rparr> = None \<and>
   messages \<lparr>messages = [red, green], mutex = None, waiting = []\<rparr> \<noteq> [] \<and>
   fst (receive 1 \<lparr>messages = [red, green], mutex = None, waiting = []\<rparr>) = Some green \<and>
   messages (snd (receive 1 \<lparr>messages = [red, green], mutex = None, waiting = []\<rparr>)) = [red] \<and>
   mutex (empty_queue :: TrafficLightPhase MessageQueue) = None \<and>
   messages (empty_queue :: TrafficLightPhase MessageQueue) = [] \<and>
   receive 1 (empty_queue :: TrafficLightPhase MessageQueue) =
     (None, \<lparr>messages = [], mutex = None, waiting = [1]\<rparr>) \<and>
   send 2 green \<lparr>messages = [], mutex = None, waiting = [1]\<rparr> =
     Some \<lparr>messages = [green], mutex = None, waiting = []\<rparr> \<and>
   receive 1 \<lparr>messages = [green], mutex = None, waiting = []\<rparr> =
     (Some green, \<lparr>messages = [], mutex = None, waiting = []\<rparr>) \<and>
   messages (run_ops [Clear, Receive 3] (snd (receive 1 empty_queue)))
     = ([] :: TrafficLightPhase list) \<and>
   fst (receive 1 (run_ops [Clear, Receive 3]
     (snd (receive 1 (empty_queue :: TrafficLightPhase MessageQueue))))) = None \<and>
   fst (receive 1 (run_ops ([Clear, Receive 3] @ [Send 2 green])
     (snd (receive 1 empty_queue)))) = Some green"
  using receive_takes_latest
    [of 1 "\<lparr>messages = [red, green], mutex = None, waiting = []\<rparr>" 2 red "[]"]
    receive_takes_latest
    [of 1 "empty_queue :: TrafficLightPhase MessageQueue" 2 green "[Clear, Receive 3]"]
  by (simp add: empty_queue_def receive_def send_def lock_def unlock_def park_def unpark_def
      notify_one_def clear_def)

text \<open>
  C7. \<open>receive\<close> returns only what an unmatched \<open>send\<close> has left in the container.
  With an empty container it blocks. After \<open>clear\<close> it blocks, whatever the container
  held before, and keeps blocking through any further operations of which none is a
  \<open>send\<close>; once a \<open>send\<close> has happened it returns the value sent. From the fresh
  queue and after any history of operations it blocks exactly when the history has no
  unmatched send, and every value it returns is one that the history sent.
\<close>

theorem receive_needs_unmatched_send:
  "mutex q = None \<Longrightarrow>
     (messages q = [] \<longrightarrow> fst (receive t q) = None) \<and>
     fst (receive t (clear q)) = None \<and>
     (sent_values h = [] \<longrightarrow> fst (receive t (run_ops h (clear q))) = None) \<and>
     fst (receive t (run_ops (h @ [Send u msg]) (clear q))) = Some msg \<and>
     (fst (receive t (run_ops h empty_queue)) = None \<longleftrightarrow> unmatched_sends h 0 = 0) \<and>
     (\<forall>v. fst (receive t (run_ops h empty_queue)) = Some v \<longrightarrow> v \<in> set (sent_values h))"
proof -
  assume free: "mutex q = None"
  have c: "mutex (clear q) = None" "messages (clear q) = []"
    using free by (simp_all add: clear_def)
  have e: "mutex (empty_queue :: 'a MessageQueue) = None"
    "messages (empty_queue :: 'a MessageQueue) = []"
    by (simp_all add: empty_queue_def)
  have p1: "messages q = [] \<longrightarrow> fst (receive t q) = None"
    using free by (simp add: receive_empty)
  have p2: "fst (receive t (clear q)) = None"
    using c by (simp add: receive_empty)
  have p3: "sent_values h = [] \<longrightarrow> fst (receive t (run_ops h (clear q))) = None"
  proof
    assume "sent_values h = []"
    with set_run_ops [OF c(1), of h] c(2) have "messages (run_ops h (clear q)) = []" by simp
    with mutex_run_ops [OF c(1), of h] show "fst (receive t (run_ops h (clear q))) = None"
      by (simp add: receive_empty)
  qed
  have p4: "fst (receive t (run_ops (h @ [Send u msg]) (clear q))) = Some msg"
    using mutex_run_ops [OF c(1), of h]
    by (simp add: run_ops_append send_free receive_nonempty)
  have len: "length (messages (run_ops h (empty_queue :: 'a MessageQueue))) = unmatched_sends h 0"
    using length_run_ops [OF e(1), of h] e(2) by simp
  have "unmatched_sends h 0 = 0 \<longleftrightarrow> messages (run_ops h (empty_queue :: 'a MessageQueue)) = []"
    unfolding len [symmetric] by simp
  then have p5: "fst (receive t (run_ops h empty_queue)) = None \<longleftrightarrow> unmatched_sends h 0 = 0"
    using mutex_run_ops [OF e(1), of h]
    by (cases "messages (run_ops h (empty_queue :: 'a MessageQueue)) = []")
       (simp_all add: receive_empty receive_nonempty)
  have p6: "\<forall>v. fst (receive t (run_ops h empty_queue)) = Some v \<longrightarrow> v \<in> set (sent_values h)"
  proof (intro allI impI)
    fix v assume r: "fst (receive t (run_ops h empty_queue)) = Some v"
    let ?q = "run_ops h (empty_queue :: 'a MessageQueue)"
    have m: "mutex ?q = None" by (rule mutex_run_ops [OF e(1)])
    have ne: "messages ?q \<noteq> []"
      using r m by (cases "messages ?q = []") (simp_all add: receive_empty)
    with r m have "v = last (messages ?q)" by (simp add: receive_nonempty)
    with ne have "v \<in> set (messages ?q)" by simp
    with set_run_ops [OF e(1), of h] e(2) show "v \<in> set (sent_values h)" by auto
  qed
  from p1 p2 p3 p4 p5 p6 show ?thesis by blast
qed

theorem receive_needs_unmatched_send_witness:
  "mutex \<lparr>messages = [red], mutex = None, waiting = []\<rparr> = None \<and>
   sent_values [Clear, Receive 2 :: TrafficLightPhase queue_op] = [] \<and>
   fst (receive 2 (clear \<lparr>messages = [red], mutex = None, waiting = []\<rparr>)) = None \<and>
   fst (receive 2 (run_ops [Clear, Receive 2]
      (clear \<lparr>messages = [red], mutex = None, waiting = []\<rparr>))) = None \<and>
   fst (receive 2 (run_ops ([Clear, Receive 2] @ [Send 1 green])
      (clear \<lparr>messages = [red], mutex = None, waiting = []\<rparr>))) = Some green"
  using receive_needs_unmatched_send
    [of "\<lparr>messages = [red], mutex = None, waiting = []\<rparr>" 2 "[Clear, Receive 2]" 1 green]
  by simp

section \<open>send\<close>

text \<open>
  C8, as the claim states it, at a queue on which no receiver waits: \<open>send\<close> wakes
  nobody there.
\<close>

theorem send_wakes_exactly_one_counterexample:
  "map_option (woken empty_queue) (send 1 green empty_queue) = Some 0"
  by (simp add: send_def lock_def notify_one_def unlock_def woken_def empty_queue_def)

text \<open>
  C8, amended. With the mutex free, \<open>send\<close> puts the value at the end of the
  container, which grows by exactly one element and keeps what it held, and then
  notifies the condition variable once: that wakes one waiting receiver when at least
  one is waiting and none otherwise, never more than one.
\<close>

theorem send_appends_and_notifies:
  "mutex q = None \<Longrightarrow>
     (\<exists>q'. send t msg q = Some q' \<and>
        messages q' = messages q @ [msg] \<and>
        length (messages q') = Suc (length (messages q)) \<and>
        take (length (messages q)) (messages q') = messages q \<and>
        woken q q' = (if waiting q = [] then 0 else 1) \<and>
        set (waiting q') \<subseteq> set (waiting q))"
  by (cases "waiting q") (auto simp: send_free woken_def dest: in_set_dropD)

theorem send_appends_and_notifies_witness:
  "mutex \<lparr>messages = [red], mutex = None, waiting = [3, 4]\<rparr> = None \<and>
   send 1 green \<lparr>messages = [red], mutex = None, waiting = [3, 4]\<rparr> =
     Some \<lparr>messages = [red, green], mutex = None, waiting = [4]\<rparr> \<and>
   woken \<lparr>messages = [red], mutex = None, waiting = [3, 4]\<rparr>
     \<lparr>messages = [red, green], mutex = None, waiting = [4 :: nat]\<rparr> = 1"
  using send_appends_and_notifies
    [of "\<lparr>messages = [red], mutex = None, waiting = [3, 4]\<rparr>" 1 green]
  by (auto simp: send_free woken_def)

section \<open>clear\<close>

text \<open>
  C2. While thread 1 holds the mutex (it is inside \<open>send\<close> or \<open>receive\<close>),
  \<open>send\<close> and \<open>receive\<close> of thread 2 block, but \<open>clear\<close> of thread 2 goes ahead
  and empties the container: it never takes the mutex, which thread 1 still holds
  afterwards.
\<close>

theorem clear_takes_no_lock:
  "lock 1 \<lparr>messages = [red], mutex = None, waiting = []\<rparr> =
     Some \<lparr>messages = [red], mutex = Some 1, waiting = []\<rparr> \<and>
   send 2 green \<lparr>messages = [red], mutex = Some 1, waiting = []\<rparr> = None \<and>
   fst (receive 2 \<lparr>messages = [red], mutex = Some 1, waiting = []\<rparr>) = None \<and>
   clear \<lparr>messages = [red], mutex = Some 1, waiting = []\<rparr> =
     \<lparr>messages = [], mutex = Some 1, waiting = []\<rparr>"
  by (simp add: lock_def send_def receive_def clear_def unpark_def)

text \<open>
  C6. On a queue that no other thread touches, after \<open>send(red)\<close>, \<open>clear()\<close>,
  \<open>send(green)\<close> the next \<open>receive\<close> returns green, not red, and leaves the container
  empty.
\<close>

theorem latest_after_clear:
  "mutex q = None \<Longrightarrow>
     (\<exists>q1 q3. send s red q = Some q1 \<and> send s green (clear q1) = Some q3 \<and>
        fst (receive r q3) = Some green \<and> fst (receive r q3) \<noteq> Some red \<and>
        messages (snd (receive r q3)) = [])"
  by (simp add: send_free clear_def receive_nonempty)

theorem latest_after_clear_witness:
  "mutex (empty_queue :: TrafficLightPhase MessageQueue) = None \<and>
   (\<exists>q1 q3. send 1 red empty_queue = Some q1 \<and> send 1 green (clear q1) = Some q3 \<and>
        fst (receive 2 q3) = Some green)"
  using latest_after_clear [of "empty_queue :: TrafficLightPhase MessageQueue" 1 2]
  by (auto simp: empty_queue_def)

section \<open>getCurrentPhase\<close>

text \<open>
  C10. \<open>getCurrentPhase\<close> returns the current phase and leaves the whole controller as
  it was, in particular the phase field and the container of the queue.
\<close>

theorem getCurrentPhase_reads_only:
  "fst (getCurrentPhase this) = currentPhase this \<and>
   snd (getCurrentPhase this) = this \<and>
   currentPhase (snd (getCurrentPhase this)) = currentPhase this \<and>
   messages (msgQueue (snd (getCurrentPhase this))) = messages (msgQueue this)"
  by (simp add: getCurrentPhase_def)

section \<open>waitForGreen\<close>

lemma waitForGreen_received:
  "waitForGreen t es this = (left, received, this') \<Longrightarrow>
   (left \<longleftrightarrow> green \<in> set received) \<and> green \<notin> set (butlast received)"
proof (induction t es this arbitrary: left received this' rule: waitForGreen.induct)
  case (1 t this)
  then show ?case by simp
next
  case (2 t x es this)
  then show ?case by simp
next
  case (3 t es this)
  obtain r q where rq: "receive t (msgQueue this) = (r, q)" by (cases "receive t (msgQueue this)")
  show ?case
  proof (cases r)
    case None
    with rq "3.prems" have "waitForGreen t es (this\<lparr>msgQueue := q\<rparr>) = (left, received, this')"
      by simp
    with "3.IH"(1) [OF rq [symmetric, unfolded None] refl] None rq show ?thesis by simp
  next
    case (Some p)
    show ?thesis
    proof (cases "p = green")
      case True
      with rq Some "3.prems" show ?thesis by auto
    next
      case False
      obtain l rest this2 where w: "waitForGreen t es (this\<lparr>msgQueue := q\<rparr>) = (l, rest, this2)"
        by (cases "waitForGreen t es (this\<lparr>msgQueue := q\<rparr>)")
      from rq Some False w "3.prems" have eq: "left = l" "received = p # rest" by simp_all
      have ih: "(l \<longleftrightarrow> green \<in> set rest) \<and> green \<notin> set (butlast rest)"
        using "3.IH"(2) [OF rq [symmetric] _ False w] Some by simp
      from ih eq False show ?thesis by (cases rest) auto
    qed
  qed
qed

lemma waitForGreen_left_stable:
  "waitForGreen t es this = (True, received, this') \<Longrightarrow>
   waitForGreen t (es @ later) this = (True, received, this')"
proof (induction t es this arbitrary: received this' rule: waitForGreen.induct)
  case (1 t this)
  then show ?case by simp
next
  case (2 t x es this)
  then show ?case by simp
next
  case (3 t es this)
  obtain r q where rq: "receive t (msgQueue this) = (r, q)" by (cases "receive t (msgQueue this)")
  show ?case
  proof (cases r)
    case None
    with rq "3.prems" have "waitForGreen t es (this\<lparr>msgQueue := q\<rparr>) = (True, received, this')"
      by simp
    from "3.IH"(1) [OF rq [symmetric, unfolded None] refl this] None rq show ?thesis by simp
  next
    case (Some p)
    show ?thesis
    proof (cases "p = green")
      case True
      with rq Some "3.prems" show ?thesis by auto
    next
      case False
      obtain l rest this2 where w: "waitForGreen t es (this\<lparr>msgQueue := q\<rparr>) = (l, rest, this2)"
        by (cases "waitForGreen t es (this\<lparr>msgQueue := q\<rparr>)")
      from rq Some False w "3.prems" have eq: "l = True" "received = p # rest" "this' = this2"
        by simp_all
      have "waitForGreen t (es @ later) (this\<lparr>msgQueue := q\<rparr>) = (True, rest, this2)"
        using "3.IH"(2) [OF rq [symmetric] _ False] Some w eq by simp
      with rq Some False eq show ?thesis by simp
    qed
  qed
qed

lemma waitForGreen_deliver:
  "mutex (msgQueue this) = None \<Longrightarrow> messages (msgQueue this) = [] \<Longrightarrow>
   fst (waitForGreen t (deliver u ns) this) = (green \<in> set ns) \<and>
   fst (snd (waitForGreen t (deliver u ns) this)) =
     takeWhile (\<lambda>n. n \<noteq> green) ns @ (if green \<in> set ns then [green] else [])"
proof (induction ns arbitrary: this)
  case Nil
  then show ?case by simp
next
  case (Cons n ns)
  let ?q = "msgQueue this"
  let ?q1 = "?q\<lparr>messages := [n], waiting := drop 1 (waiting ?q)\<rparr>"
  let ?q2 = "?q\<lparr>messages := [], waiting := removeAll t (drop 1 (waiting ?q))\<rparr>"
  have s: "send u n ?q = Some ?q1" using Cons.prems by (simp add: send_free)
  have r: "receive t ?q1 = (Some n, ?q2)" using Cons.prems by (simp add: receive_nonempty)
  show ?case
  proof (cases "n = green")
    case True
    with s r show ?thesis by simp
  next
    case False
    have ih: "fst (waitForGreen t (deliver u ns) (this\<lparr>msgQueue := ?q2\<rparr>)) = (green \<in> set ns) \<and>
      fst (snd (waitForGreen t (deliver u ns) (this\<lparr>msgQueue := ?q2\<rparr>))) =
        takeWhile (\<lambda>n. n \<noteq> green) ns @ (if green \<in> set ns then [green] else [])"
      using Cons.prems by (intro Cons.IH) simp_all
    from s r False ih show ?thesis
      by (simp add: split_beta)
  qed
qed

text \<open>
  C3. Along every schedule, \<open>waitForGreen\<close> has returned exactly when a green
  notification is among those \<open>receive\<close> handed to it; every notification before the
  last one received is red, so a red one never makes it return and the green one is the
  last it receives; once it has returned, nothing that happens later changes the
  outcome. When the notifications \<open>ns\<close> are delivered to it one by one, it returns iff
  \<open>ns\<close> contains green, having received the reds before the first green and that green.
\<close>

theorem waitForGreen_returns_on_green:
  "(waitForGreen t es this = (left, received, this') \<longrightarrow>
      (left \<longleftrightarrow> green \<in> set received) \<and>
      green \<notin> set (butlast received) \<and>
      (left \<longrightarrow> waitForGreen t (es @ later) this = (left, received, this'))) \<and>
   (mutex (msgQueue this) = None \<and> messages (msgQueue this) = [] \<longrightarrow>
      fst (waitForGreen t (deliver u ns) this) = (green \<in> set ns) \<and>
      fst (snd (waitForGreen t (deliver u ns) this)) =
        takeWhile (\<lambda>n. n \<noteq> green) ns @ (if green \<in> set ns then [green] else []))"
  using waitForGreen_received [of t es this left received this']
    waitForGreen_left_stable [of t es this received this' later]
    waitForGreen_deliver [of this t u ns]
  by (cases left) simp_all

theorem waitForGreen_returns_on_green_witness:
  "waitForGreen 2 [Turn, Other (Send 1 red), Turn, Other Clear, Other (Send 1 green), Turn]
     TrafficLight_new =
     (True, [red, green], TrafficLight_new) \<and>
   mutex (msgQueue TrafficLight_new) = None \<and> messages (msgQueue TrafficLight_new) = [] \<and>
   fst (waitForGreen 2 (deliver 1 [red, red, green, red]) TrafficLight_new) \<and>
   fst (snd (waitForGreen 2 (deliver 1 [red, red, green, red]) TrafficLight_new)) =
     [red, red, green]"
  using waitForGreen_returns_on_green
    [of 2 "[Turn, Other (Send 1 red), Turn, Other Clear, Other (Send 1 green), Turn]"
        TrafficLight_new True "[red, green]" TrafficLight_new "[]" 1 "[red, red, green, red]"]
  by (simp add: TrafficLight_new_def empty_queue_def receive_def send_def lock_def unlock_def
      park_def unpark_def notify_one_def clear_def)

section \<open>The cycle\<close>



text \<open>
  C4. A new controller is red. The loop started on it never gets stuck, and the phases
  it shows, the initial one followed by the phase after each toggling iteration, are
  red, green, red, green, ...: an iteration in which the duration has elapsed toggles
  the phase, red to green and green to red, and any other iteration leaves it as it is.
\<close>

theorem phases_alternate:
  "currentPhase TrafficLight_new = red \<and>
   toggle red = green \<and> toggle green = red \<and>
   (\<exists>s'. cycleThroughPhases is (cycle_start e now TrafficLight_new) = Some s') \<and>
   red # phases_shown is (cycle_start e now TrafficLight_new) =
     map (\<lambda>k. if even k then red else green)
       [0..<Suc (length (phases_shown is (cycle_start e now TrafficLight_new)))] \<and>
   distinct_adj (red # phases_shown is (cycle_start e now TrafficLight_new)) \<and>
   (mutex (msgQueue (light s)) = None \<longrightarrow>
      (\<exists>s'. cycle_step i s = Some s' \<and>
         currentPhase (light s') =
           (if expired i s then toggle (currentPhase (light s)) else currentPhase (light s))))"
proof -
  let ?s0 = "cycle_start e now TrafficLight_new"
  let ?n = "length (phases_shown is ?s0)"
  have free: "mutex (msgQueue (light ?s0)) = None"
    and p0: "currentPhase (light ?s0) = red"
    by (simp_all add: cycle_start_def TrafficLight_new_def empty_queue_def)
  have run: "\<exists>s'. cycleThroughPhases is ?s0 = Some s'"
    using cycleThroughPhases_runs [OF free, of "is"] by blast
  have alt: "red # phases_shown is ?s0 = alternating red (Suc ?n)"
    using phases_shown_alternate [OF free, of "is"] by (simp add: p0 toggle_simps)
  have par: "red # phases_shown is ?s0 =
      map (\<lambda>k. if even k then red else green) [0..<Suc ?n]"
    unfolding alt alternating_by_parity by (simp add: toggle_simps)
  have adj: "distinct_adj (red # phases_shown is ?s0)"
    unfolding alt by (rule distinct_adj_alternating)
  have step: "mutex (msgQueue (light s)) = None \<longrightarrow>
      (\<exists>s'. cycle_step i s = Some s' \<and>
         currentPhase (light s') =
           (if expired i s then toggle (currentPhase (light s)) else currentPhase (light s)))"
    using cycle_step_mutex [of s i] by blast
  have new: "currentPhase TrafficLight_new = red"
    by (simp add: TrafficLight_new_def)
  show ?thesis
    by (rule conjI [OF new conjI [OF toggle_simps(1) conjI [OF toggle_simps(2)
          conjI [OF run conjI [OF par conjI [OF adj step]]]]]])
qed

theorem phases_alternate_witness:
  "phases_shown
     [\<lparr>now_at_check = 4999999999, now_at_reset = 0, drawn = 5, async_thread = 9\<rparr>,
      \<lparr>now_at_check = 5000000000, now_at_reset = 5000000001, drawn = 8, async_thread = 9\<rparr>,
      \<lparr>now_at_check = 13000000001, now_at_reset = 13000000002, drawn = 6, async_thread = 9\<rparr>,
      \<lparr>now_at_check = 19000000002, now_at_reset = 19000000003, drawn = 7, async_thread = 9\<rparr>]
     (cycle_start 5 0 TrafficLight_new) = [green, red, green] \<and>
   mutex (msgQueue (light (cycle_start 5 0 TrafficLight_new))) = None \<and>
   expired \<lparr>now_at_check = 5000000000, now_at_reset = 5000000001, drawn = 8, async_thread = 9\<rparr>
     (cycle_start 5 0 TrafficLight_new) \<and>
   map_option (\<lambda>s. currentPhase (light s))
     (cycle_step \<lparr>now_at_check = 5000000000, now_at_reset = 5000000001, drawn = 8, async_thread = 9\<rparr>
        (cycle_start 5 0 TrafficLight_new)) = Some green"
  using phases_alternate [of
     "[\<lparr>now_at_check = 4999999999, now_at_reset = 0, drawn = 5, async_thread = 9\<rparr>,
      \<lparr>now_at_check = 5000000000, now_at_reset = 5000000001, drawn = 8, async_thread = 9\<rparr>,
      \<lparr>now_at_check = 13000000001, now_at_reset = 13000000002, drawn = 6, async_thread = 9\<rparr>,
      \<lparr>now_at_check = 19000000002, now_at_reset = 19000000003, drawn = 7, async_thread = 9\<rparr>]"
     5 0 "cycle_start 5 0 TrafficLight_new"
     "\<lparr>now_at_check = 5000000000, now_at_reset = 5000000001, drawn = 8, async_thread = 9\<rparr>"]
  by (simp add: cycle_start_def TrafficLight_new_def empty_queue_def expired_def cycle_step_def
      duration_cast_seconds_def toggle_def
      send_and_wait_def clear_queue_def cout_state_def toggle_phase_def emit_def clear_def
      send_def lock_def unlock_def notify_one_def choose_duration_def reset_stop_watch_def Let_def)

section \<open>The cycle durations\<close>

text \<open>
  Every cycle duration in force, before the loop and after each iteration, is a value
  that \<open>secondsList(engine)\<close> returned, unchanged: the one drawn before the loop or one
  drawn in an iteration. The program builds the distribution with the bounds 5 and 8,
  so when the library returns values within the bounds of the distribution, every
  duration in force lies between 5 and 8. How the values are spread between the bounds
  is decided by the library and the engine.
\<close>

lemma durations_within_bounds:
  assumes "within_bounds secondsList d0"
    and "list_all (\<lambda>i. within_bounds secondsList (drawn i)) is"
  shows "list_all (\<lambda>d. 5 \<le> d \<and> d \<le> 8) (durations_used is (cycle_start d0 now this))"
proof -
  have "set (durations_used is (cycle_start d0 now this)) \<subseteq> insert d0 (drawn ` set is)"
    using durations_used_drawn [of "is" "cycle_start d0 now this"]
    by (simp add: cycle_start_def)
  with assms show ?thesis
    by (auto simp: list_all_iff within_secondsList)
qed

end
